theory Spec2Isabelle
  imports Main "HOL-Library.Sublist"
begin

section \<open>Selective build: the operator whitelist of op\_whitelist.h\<close>

text \<open>
  The header \<^verbatim>\<open>aten/src/ATen/core/op_registration/op_whitelist.h\<close> holds four
  \<^verbatim>\<open>constexpr\<close> functions. They read their arguments and three preprocessor
  parameters, and nothing else. The header compiles only where \<^verbatim>\<open>NDEBUG\<close> is defined
  (see \<open>op_whitelist_check\<close> below), and that build is the one modelled. A
  \<^verbatim>\<open>string_view\<close> is modelled as a \<open>string\<close> (a list of bytes), a position of type
  \<^verbatim>\<open>size_t\<close> as a \<open>nat\<close>, and the value \<^verbatim>\<open>string_view::npos\<close> that a failed search
  returns as \<open>None\<close>. Every position
  the code computes is at most the size of the view it indexes, so no \<^verbatim>\<open>size_t\<close>
  operation of the header wraps around.
\<close>

subsection \<open>Errors\<close>

text \<open>
  \<open>OutOfRange\<close> is what \<^verbatim>\<open>substr\<close> throws when its start position lies beyond the
  end of the view. No other statement of the header that is compiled can fail.
\<close>

datatype error = OutOfRange

subsection \<open>The operations of string\_view that the header calls\<close>

text \<open>
  \<^verbatim>\<open>c10::string_view\<close> follows \<^verbatim>\<open>std::string_view\<close>. \<^verbatim>\<open>sv.find(ch, pos)\<close> is the
  least index \<open>i \<ge> pos\<close> with \<open>sv[i] = ch\<close>, and \<^verbatim>\<open>npos\<close> when there is none.
\<close>

definition find_char :: "string \<Rightarrow> char \<Rightarrow> nat \<Rightarrow> nat option" where
  "find_char sv ch pos = List.find (\<lambda>i. sv ! i = ch) [pos ..< length sv]"

text \<open>
  \<^verbatim>\<open>sv.find(v, pos)\<close> is the least index \<open>i \<ge> pos\<close> at which \<open>v\<close> occurs in \<open>sv\<close>
  (so \<open>i + length v \<le> length sv\<close>), and \<^verbatim>\<open>npos\<close> when there is none.
\<close>

definition find_sv :: "string \<Rightarrow> string \<Rightarrow> nat \<Rightarrow> nat option" where
  "find_sv sv v pos =
     List.find (\<lambda>i. take (length v) (drop i sv) = v) [pos ..< Suc (length sv) - length v]"

text \<open>
  \<^verbatim>\<open>sv.substr(pos, count)\<close> throws when \<open>pos > size\<close>; otherwise it is the view of
  \<open>min count (size - pos)\<close> bytes from \<open>pos\<close>. The default \<open>count\<close> is \<^verbatim>\<open>npos\<close>,
  here \<open>None\<close>: everything from \<open>pos\<close> on.
\<close>

definition substr :: "string \<Rightarrow> nat \<Rightarrow> nat option \<Rightarrow> error + string" where
  "substr sv pos count =
     (if length sv < pos then Inl OutOfRange
      else case count of
             None \<Rightarrow> Inr (drop pos sv)
           | Some n \<Rightarrow> Inr (take n (drop pos sv)))"

text \<open>
  \<^verbatim>\<open>a.compare(b)\<close> is negative, zero or positive as \<open>a\<close> is lexicographically (by
  byte value) less than, equal to or greater than \<open>b\<close>.
\<close>

fun compare :: "string \<Rightarrow> string \<Rightarrow> int" where
  "compare [] [] = 0"
| "compare [] (y # ys) = - 1"
| "compare (x # xs) [] = 1"
| "compare (x # xs) (y # ys) =
     (if x = y then compare xs ys
      else if (of_char x :: nat) < of_char y then - 1 else 1)"

subsection \<open>op\_whitelist\_contains\<close>

text \<open>
  The \<^verbatim>\<open>for\<close> loop of \<^verbatim>\<open>op_whitelist_contains\<close>, as a function of the loop variable
  \<open>cur\<close>. The loop's \<open>next\<close> is assigned before it is read in every iteration, so it
  is local to the body here. \<open>next + 1\<close> is the \<^verbatim>\<open>next++\<close> of the source, and the
  recursive call is the loop's \<^verbatim>\<open>cur = next\<close>.
\<close>

function (domintros) op_whitelist_contains_loop :: "string \<Rightarrow> string \<Rightarrow> nat \<Rightarrow> error + bool" where
  "op_whitelist_contains_loop whitelist item cur =
     (if cur \<le> length whitelist then
        (case find_char whitelist CHR '';'' cur of
           Some next \<Rightarrow>
             (case substr whitelist cur (Some (next - cur)) of
                Inl e \<Rightarrow> Inl e
              | Inr seg \<Rightarrow>
                  if compare seg item = 0 then Inr True
                  else op_whitelist_contains_loop whitelist item (next + 1))
         | None \<Rightarrow>
             (case substr whitelist cur None of
                Inl e \<Rightarrow> Inl e
              | Inr seg \<Rightarrow>
                  if compare seg item = 0 then Inr True
                  else Inr False))
      else Inr False)"
  by pat_completeness auto

termination op_whitelist_contains_loop
  by (relation "measure (\<lambda>(whitelist, item, cur). Suc (length whitelist) - cur)")
     (auto simp: find_char_def find_Some_iff)

definition op_whitelist_contains :: "string \<Rightarrow> string \<Rightarrow> error + bool" where
  "op_whitelist_contains whitelist item = op_whitelist_contains_loop whitelist item 0"

subsection \<open>The build configuration\<close>

text \<open>
  The three preprocessor parameters the header tests. \<open>TORCH_OPERATOR_WHITELIST\<close> is
  \<open>None\<close> when the macro is not defined and otherwise the text that
  \<^verbatim>\<open>C10_STRINGIZE(TORCH_OPERATOR_WHITELIST)\<close> yields; the two others are \<open>True\<close>
  when the macro is defined.
\<close>

record build_config =
  TORCH_OPERATOR_WHITELIST :: "string option"
  TORCH_FORCE_SCHEMA_REGISTRATION :: bool
  C10_MOBILE :: bool

subsection \<open>OperatorNameView\<close>

record OperatorNameView =
  name :: string
  overload_name :: string

text \<open>
  Modelled from the spec: \<^verbatim>\<open>OperatorNameView::parse\<close> is declared in
  \<^verbatim>\<open>ATen/core/operator_name.h\<close>, which is not among the sources. The specification
  says of it that the check "strips any overload suffix (text from the first \<^verbatim>\<open>.\<close>
  onward) from \<^verbatim>\<open>qualified_name\<close>, leaving only \<^verbatim>\<open>namespace::base_name\<close>": the name is
  the text before the first \<^verbatim>\<open>.\<close>, the overload name the text after it, and a string
  with no \<^verbatim>\<open>.\<close> is a name with an empty overload name.
\<close>

definition parse :: "string \<Rightarrow> OperatorNameView" where
  "parse full_name =
     (case find_char full_name CHR ''.'' 0 of
        None \<Rightarrow> \<lparr>name = full_name, overload_name = []\<rparr>
      | Some i \<Rightarrow> \<lparr>name = take i full_name, overload_name = drop (Suc i) full_name\<rparr>)"

subsection \<open>op\_whitelist\_check\<close>

text \<open>
  The first statement of the function is
  \<^verbatim>\<open>assert(op_name.find("::").compare(string_view::npos) != 0)\<close>. The value of
  \<^verbatim>\<open>op_name.find("::")\<close> is a \<^verbatim>\<open>size_t\<close> (the loop above stores such a value in
  \<open>next\<close> and compares it with \<^verbatim>\<open>npos\<close>), and a \<^verbatim>\<open>size_t\<close> has no member
  \<^verbatim>\<open>compare\<close>: where \<^verbatim>\<open>assert\<close> expands its argument the header is ill-formed. It
  compiles only with \<^verbatim>\<open>NDEBUG\<close> defined, where \<^verbatim>\<open>assert(e)\<close> expands to nothing. So the
  function as compiled evaluates no assertion and does not search for \<^verbatim>\<open>::\<close>; its body
  is the \<^verbatim>\<open>#if !defined(TORCH_OPERATOR_WHITELIST)\<close>, whose two branches are the two
  cases of the option.
\<close>

definition op_whitelist_check :: "build_config \<Rightarrow> string \<Rightarrow> error + bool" where
  "op_whitelist_check cfg op_name =
     (case TORCH_OPERATOR_WHITELIST cfg of
        None \<Rightarrow> Inr True
      | Some whitelist \<Rightarrow> op_whitelist_contains whitelist (name (parse op_name)))"

subsection \<open>schema\_whitelist\_check\<close>

definition schema_whitelist_check :: "build_config \<Rightarrow> string \<Rightarrow> error + bool" where
  "schema_whitelist_check cfg schema =
     (if TORCH_FORCE_SCHEMA_REGISTRATION cfg then Inr True
      else case substr schema 0 (find_sv schema ''('' 0) of
             Inl e \<Rightarrow> Inl e
           | Inr op_name \<Rightarrow> op_whitelist_check cfg op_name)"

subsection \<open>dispatch\_key\_whitelist\_check\<close>

text \<open>
  Modelled from the spec: the enumeration \<^verbatim>\<open>DispatchKey\<close> is declared in
  \<^verbatim>\<open>c10/core/DispatchKey.h\<close>, which is not among the sources. The specification calls
  it "a fixed enumeration of execution-backend tags" and names CUDA as a key outside the
  mobile list. The five keys that the header names and CUDA are constructors of their
  own; \<open>OtherKey n\<close> stands for every further enumerator.
\<close>

datatype DispatchKey =
  CPU | CUDA | Vulkan | QuantizedCPU | BackendSelect | CatchAll | OtherKey nat

definition dispatch_key_whitelist_check :: "build_config \<Rightarrow> DispatchKey \<Rightarrow> bool" where
  "dispatch_key_whitelist_check cfg k =
     (if C10_MOBILE cfg then
        k = CPU \<or> k = Vulkan \<or> k = QuantizedCPU \<or> k = BackendSelect \<or> k = CatchAll
      else True)"

subsection \<open>The specification's reading of a delimiter-joined list\<close>

text \<open>
  The \<^verbatim>\<open>;\<close>-separated segments of a list string, as the specification describes them:
  the string is cut at every \<^verbatim>\<open>;\<close>, and adjacent, leading and trailing delimiters
  give empty segments. The empty string has one segment, the empty one. A byte that
  is not the delimiter extends the first segment of the rest of the string (there always
  is one, see \<open>segments_not_Nil\<close>). This definition is not taken from the code; the
  code is compared with it.
\<close>

fun segments :: "string \<Rightarrow> string list" where
  "segments [] = [[]]"
| "segments (c # cs) =
     (if c = CHR '';'' then [] # segments cs
      else case segments cs of
             [] \<Rightarrow> [[c]]
           | seg # rest \<Rightarrow> (c # seg) # rest)"

text \<open>
  Joining segments with the delimiter, the inverse of cutting a list string into its
  segments.
\<close>

fun join :: "string list \<Rightarrow> string" where
  "join [] = []"
| "join [s] = s"
| "join (s # t # ts) = s @ CHR '';'' # join (t # ts)"

section \<open>Properties\<close>

subsection \<open>The string operations\<close>

lemma compare_eq_0_iff: "compare a b = 0 \<longleftrightarrow> a = b"
  by (induction a b rule: compare.induct) auto

lemma segments_no_delim: "CHR '';'' \<notin> set xs \<Longrightarrow> segments xs = [xs]"
  by (induction xs) auto

lemma segments_append_delim:
  "CHR '';'' \<notin> set xs \<Longrightarrow> segments (xs @ CHR '';'' # ys) = xs # segments ys"
  by (induction xs) auto

lemma find_char_None_iff: "find_char sv ch pos = None \<longleftrightarrow> ch \<notin> set (drop pos sv)"
proof -
  have "set (drop pos sv) = {sv ! i | i. pos \<le> i \<and> i < length sv}"
  proof -
    have "set (drop pos sv) = {drop pos sv ! j | j. j < length sv - pos}"
      by (simp add: set_conv_nth)
    also have "\<dots> = {sv ! (pos + j) | j. j < length sv - pos}"
      by auto
    also have "\<dots> = {sv ! i | i. pos \<le> i \<and> i < length sv}"
    proof (intro set_eqI iffI; clarsimp)
      fix j assume "j < length sv - pos"
      then show "\<exists>i. sv ! (pos + j) = sv ! i \<and> pos \<le> i \<and> i < length sv"
        by (intro exI[of _ "pos + j"]) auto
    next
      fix i assume "pos \<le> i" "i < length sv"
      then show "\<exists>j. sv ! i = sv ! (pos + j) \<and> j < length sv - pos"
        by (intro exI[of _ "i - pos"]) auto
    qed
    finally show ?thesis .
  qed
  then show ?thesis
    unfolding find_char_def by (auto simp: find_None_iff)
qed

lemma find_upt_None_iff:
  "List.find P [a..<b] = None \<longleftrightarrow> (\<forall>j. a \<le> j \<and> j < b \<longrightarrow> \<not> P j)"
  by (auto simp: find_None_iff)

lemma find_upt_Some_iff:
  "List.find P [a..<b] = Some i \<longleftrightarrow>
     a \<le> i \<and> i < b \<and> P i \<and> (\<forall>j. a \<le> j \<and> j < i \<longrightarrow> \<not> P j)"
proof
  assume "List.find P [a..<b] = Some i"
  then obtain k where k: "k < b - a" "P (a + k)" "i = a + k"
    and least: "\<forall>j<k. \<not> P ([a..<b] ! j)"
    by (auto simp: find_Some_iff)
  have "\<not> P j" if "a \<le> j" "j < i" for j
  proof -
    from that k have "j - a < k" "j - a < b - a" by auto
    with least have "\<not> P ([a..<b] ! (j - a))" by blast
    with that \<open>j - a < b - a\<close> show ?thesis by simp
  qed
  with k show "a \<le> i \<and> i < b \<and> P i \<and> (\<forall>j. a \<le> j \<and> j < i \<longrightarrow> \<not> P j)"
    by auto
next
  assume r: "a \<le> i \<and> i < b \<and> P i \<and> (\<forall>j. a \<le> j \<and> j < i \<longrightarrow> \<not> P j)"
  then have "i - a < length [a..<b]" "P ([a..<b] ! (i - a))" "i = [a..<b] ! (i - a)"
    by auto
  moreover have "\<forall>j<i - a. \<not> P ([a..<b] ! j)"
    using r by auto
  ultimately show "List.find P [a..<b] = Some i"
    unfolding find_Some_iff by blast
qed

lemma find_char_Some_iff:
  "find_char sv ch pos = Some i \<longleftrightarrow>
     pos \<le> i \<and> i < length sv \<and> sv ! i = ch \<and> (\<forall>j. pos \<le> j \<and> j < i \<longrightarrow> sv ! j \<noteq> ch)"
  unfolding find_char_def by (rule find_upt_Some_iff)

lemma find_char_Some_split:
  assumes "find_char sv ch pos = Some i"
  shows "drop pos sv = take (i - pos) (drop pos sv) @ ch # drop (Suc i) sv"
    and "ch \<notin> set (take (i - pos) (drop pos sv))"
proof -
  from assms have b: "pos \<le> i" "i < length sv" "sv ! i = ch"
    and least: "\<forall>j. pos \<le> j \<and> j < i \<longrightarrow> sv ! j \<noteq> ch"
    by (auto simp: find_char_Some_iff)
  have "drop pos sv = take (i - pos) (drop pos sv) @ drop (i - pos) (drop pos sv)"
    by (rule append_take_drop_id [symmetric])
  also have "drop (i - pos) (drop pos sv) = drop i sv"
    using b by simp
  also have "drop i sv = ch # drop (Suc i) sv"
    using b by (simp add: Cons_nth_drop_Suc [symmetric])
  finally show "drop pos sv = take (i - pos) (drop pos sv) @ ch # drop (Suc i) sv" .
  show "ch \<notin> set (take (i - pos) (drop pos sv))"
  proof
    assume "ch \<in> set (take (i - pos) (drop pos sv))"
    then obtain k where k: "k < length (take (i - pos) (drop pos sv))"
      "take (i - pos) (drop pos sv) ! k = ch"
      by (auto simp: in_set_conv_nth)
    then have "k < i - pos" by simp
    with k b have "sv ! (pos + k) = ch" by simp
    moreover from \<open>k < i - pos\<close> have "pos \<le> pos + k" "pos + k < i" by auto
    ultimately show False using least by blast
  qed
qed

subsection \<open>The loop computes membership among the segments\<close>

declare op_whitelist_contains_loop.simps [simp del]

lemma op_whitelist_contains_loop_segments:
  "cur \<le> length whitelist \<Longrightarrow>
     op_whitelist_contains_loop whitelist item cur =
       Inr (item \<in> set (segments (drop cur whitelist)))"
proof (induction whitelist item cur rule: op_whitelist_contains_loop.induct)
  case (1 whitelist item cur)
  show ?case
  proof (cases "find_char whitelist CHR '';'' cur")
    case None
    then have "segments (drop cur whitelist) = [drop cur whitelist]"
      by (simp add: find_char_None_iff segments_no_delim)
    with None "1.prems" show ?thesis
      by (subst op_whitelist_contains_loop.simps)
         (auto simp: substr_def compare_eq_0_iff)
  next
    case (Some "next")
    let ?seg = "take (next - cur) (drop cur whitelist)"
    from Some have nb: "cur \<le> next" "next < length whitelist"
      by (auto simp: find_char_Some_iff)
    from find_char_Some_split [OF Some]
    have seg: "segments (drop cur whitelist) = ?seg # segments (drop (next + 1) whitelist)"
      by (metis segments_append_delim Suc_eq_plus1)
    have sub: "substr whitelist cur (Some (next - cur)) = Inr ?seg"
      using "1.prems" by (simp add: substr_def)
    show ?thesis
    proof (cases "compare ?seg item = 0")
      case True
      then have "item = ?seg" by (simp add: compare_eq_0_iff)
      with Some sub seg "1.prems" True show ?thesis
        by (subst op_whitelist_contains_loop.simps) simp
    next
      case False
      then have ne: "item \<noteq> ?seg" by (auto simp: compare_eq_0_iff)
      have "op_whitelist_contains_loop whitelist item (next + 1) =
              Inr (item \<in> set (segments (drop (next + 1) whitelist)))"
        using "1.IH" [OF "1.prems" Some sub False] nb by simp
      with Some sub seg "1.prems" False ne show ?thesis
        by (subst op_whitelist_contains_loop.simps) simp
    qed
  qed
qed


lemma op_whitelist_contains_segments:
  "op_whitelist_contains whitelist item = Inr (item \<in> set (segments whitelist))"
  unfolding op_whitelist_contains_def
  by (simp add: op_whitelist_contains_loop_segments)

subsection \<open>Searching for a substring, and the prefix before a character\<close>

lemma find_sv_None_iff: "find_sv sv v 0 = None \<longleftrightarrow> \<not> sublist v sv"
proof -
  have "sublist v sv \<longleftrightarrow>
          (\<exists>i. i < Suc (length sv) - length v \<and> take (length v) (drop i sv) = v)"
  proof
    assume "sublist v sv"
    then obtain ps ss where sv: "sv = ps @ v @ ss"
      by (auto simp: sublist_def)
    then have "length ps < Suc (length sv) - length v"
      "take (length v) (drop (length ps) sv) = v"
      by auto
    then show "\<exists>i. i < Suc (length sv) - length v \<and> take (length v) (drop i sv) = v"
      by blast
  next
    assume "\<exists>i. i < Suc (length sv) - length v \<and> take (length v) (drop i sv) = v"
    then obtain i where i: "take (length v) (drop i sv) = v" by blast
    have "sv = take i sv @ drop i sv" by simp
    also have "drop i sv = take (length v) (drop i sv) @ drop (length v) (drop i sv)"
      by (rule append_take_drop_id [symmetric])
    finally have "sv = take i sv @ v @ drop (length v) (drop i sv)"
      using i by simp
    then show "sublist v sv"
      unfolding sublist_def by blast
  qed
  then show ?thesis
    unfolding find_sv_def by (auto simp: find_upt_None_iff)
qed

lemma find_sv_single: "find_sv sv [c] pos = find_char sv c pos"
  unfolding find_sv_def find_char_def
  by (rule find_cong) (auto simp: take_Suc_conv_app_nth hd_drop_conv_nth take_Suc)

lemma prefix_before_char:
  "(case find_char sv c 0 of None \<Rightarrow> sv | Some i \<Rightarrow> take i sv) = takeWhile (\<lambda>x. x \<noteq> c) sv"
proof (cases "find_char sv c 0")
  case None
  then have "c \<notin> set sv" by (simp add: find_char_None_iff)
  then have "takeWhile (\<lambda>x. x \<noteq> c) sv = sv" by (auto simp: takeWhile_eq_all_conv)
  with None show ?thesis by (simp del: takeWhile_eq_all_conv)
next
  case (Some i)
  from find_char_Some_split [OF Some]
  have sv: "sv = take i sv @ c # drop (Suc i) sv" and notin: "c \<notin> set (take i sv)"
    by simp_all
  have "takeWhile (\<lambda>x. x \<noteq> c) (take i sv @ c # drop (Suc i) sv) = take i sv"
    using notin by (subst takeWhile_append2) auto
  with sv Some show ?thesis by simp
qed

lemma name_parse: "name (parse full_name) = takeWhile (\<lambda>x. x \<noteq> CHR ''.'') full_name"
  using prefix_before_char [of full_name "CHR ''.''"]
  by (simp add: parse_def split: option.splits)

lemma substr_before_paren:
  "substr schema 0 (find_sv schema ''('' 0) = Inr (takeWhile (\<lambda>x. x \<noteq> CHR ''('') schema)"
  using prefix_before_char [of schema "CHR ''(''"]
  by (simp add: find_sv_single substr_def split: option.splits)

lemma takeWhile_strip_suffix:
  "takeWhile (\<lambda>x. x \<noteq> c) (xs @ c # ys) = takeWhile (\<lambda>x. x \<noteq> c) xs"
  by (induction xs) auto

subsection \<open>The checks in closed form\<close>

lemma op_whitelist_check_eq:
  "op_whitelist_check cfg op_name =
     (case TORCH_OPERATOR_WHITELIST cfg of
        None \<Rightarrow> Inr True
      | Some whitelist \<Rightarrow>
          Inr (takeWhile (\<lambda>x. x \<noteq> CHR ''.'') op_name \<in> set (segments whitelist)))"
  by (simp add: op_whitelist_check_def name_parse op_whitelist_contains_segments
      split: option.splits)

text \<open>The function returns a boolean for every name, with or without \<^verbatim>\<open>::\<close>.\<close>

lemma op_whitelist_check_returns: "\<exists>b. op_whitelist_check cfg op_name = Inr b"
  by (cases "TORCH_OPERATOR_WHITELIST cfg") (auto simp: op_whitelist_check_eq)

lemma schema_whitelist_check_eq:
  "schema_whitelist_check cfg schema =
     (if TORCH_FORCE_SCHEMA_REGISTRATION cfg then Inr True
      else op_whitelist_check cfg (takeWhile (\<lambda>x. x \<noteq> CHR ''('') schema))"
  by (simp add: schema_whitelist_check_def substr_before_paren)

subsection \<open>Segments and joining\<close>

lemma segments_not_Nil: "segments L \<noteq> []"
  by (cases L) (auto split: list.splits)

lemma join_Cons_head: "join ((c # s) # ss) = c # join (s # ss)"
  by (cases ss) auto

lemma join_segments: "join (segments L) = L"
proof (induction L)
  case Nil
  show ?case by simp
next
  case (Cons c cs)
  obtain s ss where "segments cs = s # ss"
    using segments_not_Nil [of cs] by (cases "segments cs") auto
  with Cons show ?case
    by (auto simp: join_Cons_head)
qed

lemma segments_no_delimiter: "s \<in> set (segments L) \<Longrightarrow> CHR '';'' \<notin> set s"
proof (induction L arbitrary: s)
  case Nil
  then show ?case by simp
next
  case (Cons c cs)
  obtain h t where ht: "segments cs = h # t"
    using segments_not_Nil [of cs] by (cases "segments cs") auto
  with Cons show ?case
    by (auto split: if_splits)
qed

text \<open>
  Cutting and joining are inverse to each other on lists of delimiter-free segments, so
  \<open>segments L\<close> is the only such list that joins to \<open>L\<close>.
\<close>

lemma segments_join:
  "ss \<noteq> [] \<Longrightarrow> (\<And>s. s \<in> set ss \<Longrightarrow> CHR '';'' \<notin> set s) \<Longrightarrow> segments (join ss) = ss"
proof (induction ss rule: join.induct)
  case 1
  then show ?case by simp
next
  case (2 s)
  then show ?case by (simp add: segments_no_delim)
next
  case (3 s t ts)
  then show ?case by (simp add: segments_append_delim)
qed

section \<open>The claims of the specification\<close>

text \<open>
  C1. For every list string \<open>L\<close> and token \<open>t\<close>, \<open>op_whitelist_contains L t\<close> returns
  true exactly when \<open>t\<close> is one of the \<^verbatim>\<open>;\<close>-separated segments of \<open>L\<close>, empty
  segments included, and it never fails; the five examples of the specification hold.
\<close>

theorem op_whitelist_contains_iff_segment:
  "op_whitelist_contains L t = Inr (t \<in> set (segments L))
   \<and> op_whitelist_contains ''a;bc;d'' ''bc'' = Inr True
   \<and> op_whitelist_contains ''a;bc;d'' ''b'' = Inr False
   \<and> op_whitelist_contains '''' '''' = Inr True
   \<and> op_whitelist_contains '';;'' '''' = Inr True
   \<and> op_whitelist_contains ''a;bc;d'' ''d'' = Inr True"
proof -
  have "op_whitelist_contains L t = Inr (t \<in> set (segments L))"
    by (rule op_whitelist_contains_segments)
  moreover have "op_whitelist_contains ''a;bc;d'' ''bc'' = Inr True"
    by code_simp
  moreover have "op_whitelist_contains ''a;bc;d'' ''b'' = Inr False"
    by code_simp
  moreover have "op_whitelist_contains '''' '''' = Inr True"
    by code_simp
  moreover have "op_whitelist_contains '';;'' '''' = Inr True"
    by code_simp
  moreover have "op_whitelist_contains ''a;bc;d'' ''d'' = Inr True"
    by code_simp
  ultimately show ?thesis by blast
qed

theorem op_whitelist_contains_iff_segment_witness:
  "op_whitelist_contains ''aten::add;aten::sub'' ''aten::sub'' = Inr True
   \<and> op_whitelist_contains ''aten::add;aten::sub'' ''aten::mul'' = Inr False
   \<and> op_whitelist_contains ''aten::add;'' '''' = Inr True"
  using op_whitelist_contains_iff_segment [of "''aten::add;aten::sub''" "''aten::sub''"]
    op_whitelist_contains_iff_segment [of "''aten::add;aten::sub''" "''aten::mul''"]
    op_whitelist_contains_iff_segment [of "''aten::add;''" "''''"]
  by simp

text \<open>
  C2. When \<open>TORCH_OPERATOR_WHITELIST\<close> is not defined, \<open>op_whitelist_check\<close> returns
  true for every name that contains \<^verbatim>\<open>::\<close>.
\<close>

theorem op_whitelist_check_no_whitelist:
  "TORCH_OPERATOR_WHITELIST cfg = None \<Longrightarrow> sublist ''::'' op_name \<Longrightarrow>
     op_whitelist_check cfg op_name = Inr True"
  by (simp add: op_whitelist_check_eq)

theorem op_whitelist_check_no_whitelist_witness:
  "TORCH_OPERATOR_WHITELIST
     \<lparr>TORCH_OPERATOR_WHITELIST = None, TORCH_FORCE_SCHEMA_REGISTRATION = False,
      C10_MOBILE = False\<rparr> = None
   \<and> sublist ''::'' ''aten::add.Tensor''
   \<and> op_whitelist_check
     \<lparr>TORCH_OPERATOR_WHITELIST = None, TORCH_FORCE_SCHEMA_REGISTRATION = False,
      C10_MOBILE = False\<rparr> ''aten::add.Tensor'' = Inr True"
proof -
  have s: "sublist ''::'' ''aten::add.Tensor''" by code_simp
  then show ?thesis
    using op_whitelist_check_no_whitelist
      [of "\<lparr>TORCH_OPERATOR_WHITELIST = None, TORCH_FORCE_SCHEMA_REGISTRATION = False,
            C10_MOBILE = False\<rparr>" "''aten::add.Tensor''"]
    by simp
qed

text \<open>
  C3. When \<open>TORCH_FORCE_SCHEMA_REGISTRATION\<close> is not defined, \<open>schema_whitelist_check\<close>
  of a schema is \<open>op_whitelist_check\<close> of the text before the first \<^verbatim>\<open>(\<close> of the
  schema, and of the whole schema when it holds no \<^verbatim>\<open>(\<close>. With the whitelist
  \<^verbatim>\<open>aten::add\<close> the schema \<^verbatim>\<open>aten::add.Tensor(Tensor self, Tensor other) -> Tensor\<close> is
  admitted, and with the whitelist \<^verbatim>\<open>aten::sub\<close> it is not.
\<close>

theorem schema_whitelist_check_prefix:
  "(\<not> TORCH_FORCE_SCHEMA_REGISTRATION cfg \<and> CHR ''('' \<notin> set pre \<longrightarrow>
      schema_whitelist_check cfg (pre @ ''('' @ post) = op_whitelist_check cfg pre)
   \<and> (\<not> TORCH_FORCE_SCHEMA_REGISTRATION cfg \<and> CHR ''('' \<notin> set schema \<longrightarrow>
      schema_whitelist_check cfg schema = op_whitelist_check cfg schema)
   \<and> schema_whitelist_check
        \<lparr>TORCH_OPERATOR_WHITELIST = Some ''aten::add'',
         TORCH_FORCE_SCHEMA_REGISTRATION = False, C10_MOBILE = mobile\<rparr>
        ''aten::add.Tensor(Tensor self, Tensor other) -> Tensor'' = Inr True
   \<and> schema_whitelist_check
        \<lparr>TORCH_OPERATOR_WHITELIST = Some ''aten::sub'',
         TORCH_FORCE_SCHEMA_REGISTRATION = False, C10_MOBILE = mobile\<rparr>
        ''aten::add.Tensor(Tensor self, Tensor other) -> Tensor'' = Inr False"
proof -
  have before: "schema_whitelist_check cfg (pre @ ''('' @ post) = op_whitelist_check cfg pre"
    if "\<not> TORCH_FORCE_SCHEMA_REGISTRATION cfg" "CHR ''('' \<notin> set pre"
  proof -
    have "takeWhile (\<lambda>x. x \<noteq> CHR ''('') (pre @ ''('' @ post) = pre"
      using that by (auto simp: takeWhile_strip_suffix takeWhile_eq_all_conv)
    with that show ?thesis
      by (simp only: schema_whitelist_check_eq if_False)
  qed
  have whole: "schema_whitelist_check cfg schema = op_whitelist_check cfg schema"
    if "\<not> TORCH_FORCE_SCHEMA_REGISTRATION cfg" "CHR ''('' \<notin> set schema"
  proof -
    have "takeWhile (\<lambda>x. x \<noteq> CHR ''('') schema = schema"
      using that by (auto simp: takeWhile_eq_all_conv)
    with that show ?thesis
      by (simp only: schema_whitelist_check_eq if_False)
  qed
  have "schema_whitelist_check
        \<lparr>TORCH_OPERATOR_WHITELIST = Some ''aten::add'',
         TORCH_FORCE_SCHEMA_REGISTRATION = False, C10_MOBILE = mobile\<rparr>
        ''aten::add.Tensor(Tensor self, Tensor other) -> Tensor'' = Inr True"
    by code_simp
  moreover have "schema_whitelist_check
        \<lparr>TORCH_OPERATOR_WHITELIST = Some ''aten::sub'',
         TORCH_FORCE_SCHEMA_REGISTRATION = False, C10_MOBILE = mobile\<rparr>
        ''aten::add.Tensor(Tensor self, Tensor other) -> Tensor'' = Inr False"
    by code_simp
  ultimately show ?thesis
    using before whole by blast
qed

theorem schema_whitelist_check_prefix_witness:
  "schema_whitelist_check
     \<lparr>TORCH_OPERATOR_WHITELIST = Some ''a::f;a::g'',
      TORCH_FORCE_SCHEMA_REGISTRATION = False, C10_MOBILE = False\<rparr>
     ''a::g.x(int y)'' = Inr True
   \<and> schema_whitelist_check
     \<lparr>TORCH_OPERATOR_WHITELIST = Some ''a::f;a::g'',
      TORCH_FORCE_SCHEMA_REGISTRATION = False, C10_MOBILE = False\<rparr>
     ''a::g.x'' = Inr True"
proof -
  have op: "op_whitelist_check
     \<lparr>TORCH_OPERATOR_WHITELIST = Some ''a::f;a::g'',
      TORCH_FORCE_SCHEMA_REGISTRATION = False, C10_MOBILE = False\<rparr>
     ''a::g.x'' = Inr True"
    by code_simp
  show ?thesis
    using op schema_whitelist_check_prefix
      [of "\<lparr>TORCH_OPERATOR_WHITELIST = Some ''a::f;a::g'',
            TORCH_FORCE_SCHEMA_REGISTRATION = False, C10_MOBILE = False\<rparr>"
          "''a::g.x''" "''int y)''" "''a::g.x''"]
    by simp
qed

text \<open>
  C4. For every name \<^verbatim>\<open>ns::base.overload\<close> and every build configuration,
  \<open>op_whitelist_check\<close> of \<^verbatim>\<open>ns::base.overload\<close> equals \<open>op_whitelist_check\<close> of
  \<^verbatim>\<open>ns::base\<close>; with a whitelist configured, the check of a name that contains \<^verbatim>\<open>::\<close>
  is the membership test of the text before the first \<^verbatim>\<open>.\<close> of the name.
\<close>

theorem op_whitelist_check_strips_overload:
  "op_whitelist_check cfg (ns @ ''::'' @ base @ ''.'' @ overload) =
     op_whitelist_check cfg (ns @ ''::'' @ base)
   \<and> (TORCH_OPERATOR_WHITELIST cfg = Some whitelist \<longrightarrow>
        op_whitelist_check cfg (ns @ ''::'' @ rest) =
          op_whitelist_contains whitelist
            (takeWhile (\<lambda>c. c \<noteq> CHR ''.'') (ns @ ''::'' @ rest)))"
proof -
  have sep: "sublist ''::'' (ns @ ''::'' @ xs)" for xs
    unfolding sublist_def by blast
  have "ns @ ''::'' @ base @ ''.'' @ overload = (ns @ ''::'' @ base) @ CHR ''.'' # overload"
    by simp
  then have strip: "takeWhile (\<lambda>c. c \<noteq> CHR ''.'') (ns @ ''::'' @ base @ ''.'' @ overload) =
      takeWhile (\<lambda>c. c \<noteq> CHR ''.'') (ns @ ''::'' @ base)"
    by (simp only: takeWhile_strip_suffix)
  have "op_whitelist_check cfg (ns @ ''::'' @ base @ ''.'' @ overload) =
     op_whitelist_check cfg (ns @ ''::'' @ base)"
    using sep [of "base @ ''.'' @ overload"] sep [of base] strip
    by (simp only: op_whitelist_check_eq)
  moreover have "op_whitelist_check cfg (ns @ ''::'' @ rest) =
          op_whitelist_contains whitelist
            (takeWhile (\<lambda>c. c \<noteq> CHR ''.'') (ns @ ''::'' @ rest))"
    if "TORCH_OPERATOR_WHITELIST cfg = Some whitelist"
    using that sep [of rest]
    by (simp only: op_whitelist_check_eq op_whitelist_contains_segments) simp
  ultimately show ?thesis by blast
qed

theorem op_whitelist_check_strips_overload_witness:
  "op_whitelist_check
     \<lparr>TORCH_OPERATOR_WHITELIST = Some ''aten::add'',
      TORCH_FORCE_SCHEMA_REGISTRATION = False, C10_MOBILE = False\<rparr>
     ''aten::add.Tensor'' = Inr True
   \<and> op_whitelist_check
     \<lparr>TORCH_OPERATOR_WHITELIST = Some ''aten::add'',
      TORCH_FORCE_SCHEMA_REGISTRATION = False, C10_MOBILE = False\<rparr>
     ''aten::add'' = Inr True"
proof -
  have "op_whitelist_contains ''aten::add'' ''aten::add'' = Inr True"
    by (simp add: op_whitelist_contains_segments)
  then show ?thesis
    using op_whitelist_check_strips_overload
      [of "\<lparr>TORCH_OPERATOR_WHITELIST = Some ''aten::add'',
            TORCH_FORCE_SCHEMA_REGISTRATION = False, C10_MOBILE = False\<rparr>"
          "''aten''" "''add''" "''Tensor''" "''aten::add''" "''add''"]
    by simp
qed

text \<open>
  C5. The specification says that \<open>op_whitelist_check\<close> stops with an assertion failure
  on every argument without \<^verbatim>\<open>::\<close>. The function as compiled does not: the name
  \<^verbatim>\<open>add\<close> holds no \<^verbatim>\<open>::\<close> (the search that the assertion was written to make finds
  nothing), and the function returns true for it when no whitelist is configured and
  when the whitelist is \<^verbatim>\<open>add\<close>, and false when the whitelist is \<^verbatim>\<open>aten::add\<close>.
\<close>

theorem op_whitelist_check_without_separator:
  "\<not> sublist ''::'' ''add''
   \<and> find_sv ''add'' ''::'' 0 = None
   \<and> op_whitelist_check
        \<lparr>TORCH_OPERATOR_WHITELIST = None, TORCH_FORCE_SCHEMA_REGISTRATION = False,
         C10_MOBILE = False\<rparr> ''add'' = Inr True
   \<and> op_whitelist_check
        \<lparr>TORCH_OPERATOR_WHITELIST = Some ''add'', TORCH_FORCE_SCHEMA_REGISTRATION = False,
         C10_MOBILE = False\<rparr> ''add'' = Inr True
   \<and> op_whitelist_check
        \<lparr>TORCH_OPERATOR_WHITELIST = Some ''aten::add'',
         TORCH_FORCE_SCHEMA_REGISTRATION = False, C10_MOBILE = False\<rparr> ''add'' = Inr False"
proof -
  have "\<not> sublist ''::'' ''add''"
    by code_simp
  moreover have "find_sv ''add'' ''::'' 0 = None"
    by code_simp
  moreover have "op_whitelist_check
        \<lparr>TORCH_OPERATOR_WHITELIST = None, TORCH_FORCE_SCHEMA_REGISTRATION = False,
         C10_MOBILE = False\<rparr> ''add'' = Inr True"
    by code_simp
  moreover have "op_whitelist_check
        \<lparr>TORCH_OPERATOR_WHITELIST = Some ''add'', TORCH_FORCE_SCHEMA_REGISTRATION = False,
         C10_MOBILE = False\<rparr> ''add'' = Inr True"
    by code_simp
  moreover have "op_whitelist_check
        \<lparr>TORCH_OPERATOR_WHITELIST = Some ''aten::add'',
         TORCH_FORCE_SCHEMA_REGISTRATION = False, C10_MOBILE = False\<rparr> ''add'' = Inr False"
    by code_simp
  ultimately show ?thesis by blast
qed

text \<open>
  C6. When \<open>C10_MOBILE\<close> is defined, \<open>dispatch_key_whitelist_check\<close> is true for exactly
  five keys, \<open>CPU\<close>, \<open>Vulkan\<close>, \<open>QuantizedCPU\<close>, \<open>BackendSelect\<close> and \<open>CatchAll\<close>, and
  false for every other key, \<open>CUDA\<close> among them; when it is not defined the check is
  true for every key.
\<close>

theorem dispatch_key_whitelist_check_mobile:
  "(C10_MOBILE cfg \<longrightarrow>
      dispatch_key_whitelist_check cfg k =
        (k \<in> {CPU, Vulkan, QuantizedCPU, BackendSelect, CatchAll})
      \<and> card {k'. dispatch_key_whitelist_check cfg k'} = 5
      \<and> \<not> dispatch_key_whitelist_check cfg CUDA)
   \<and> (\<not> C10_MOBILE cfg \<longrightarrow> dispatch_key_whitelist_check cfg k)"
proof -
  have "{k'. dispatch_key_whitelist_check cfg k'} =
          {CPU, Vulkan, QuantizedCPU, BackendSelect, CatchAll}"
    if "C10_MOBILE cfg"
    using that by (auto simp: dispatch_key_whitelist_check_def)
  then have "card {k'. dispatch_key_whitelist_check cfg k'} = 5" if "C10_MOBILE cfg"
    using that by simp
  then show ?thesis
    by (auto simp: dispatch_key_whitelist_check_def)
qed

theorem dispatch_key_whitelist_check_mobile_witness:
  "dispatch_key_whitelist_check
     \<lparr>TORCH_OPERATOR_WHITELIST = None, TORCH_FORCE_SCHEMA_REGISTRATION = False,
      C10_MOBILE = True\<rparr> CPU
   \<and> \<not> dispatch_key_whitelist_check
     \<lparr>TORCH_OPERATOR_WHITELIST = None, TORCH_FORCE_SCHEMA_REGISTRATION = False,
      C10_MOBILE = True\<rparr> CUDA
   \<and> \<not> dispatch_key_whitelist_check
     \<lparr>TORCH_OPERATOR_WHITELIST = None, TORCH_FORCE_SCHEMA_REGISTRATION = False,
      C10_MOBILE = True\<rparr> (OtherKey 0)
   \<and> dispatch_key_whitelist_check
     \<lparr>TORCH_OPERATOR_WHITELIST = None, TORCH_FORCE_SCHEMA_REGISTRATION = False,
      C10_MOBILE = False\<rparr> CUDA"
  using dispatch_key_whitelist_check_mobile
      [of "\<lparr>TORCH_OPERATOR_WHITELIST = None, TORCH_FORCE_SCHEMA_REGISTRATION = False,
            C10_MOBILE = True\<rparr>" CPU]
    dispatch_key_whitelist_check_mobile
      [of "\<lparr>TORCH_OPERATOR_WHITELIST = None, TORCH_FORCE_SCHEMA_REGISTRATION = False,
            C10_MOBILE = True\<rparr>" "OtherKey 0"]
    dispatch_key_whitelist_check_mobile
      [of "\<lparr>TORCH_OPERATOR_WHITELIST = None, TORCH_FORCE_SCHEMA_REGISTRATION = False,
            C10_MOBILE = False\<rparr>" CUDA]
  by simp

text \<open>
  C7. When \<open>TORCH_FORCE_SCHEMA_REGISTRATION\<close> is defined, \<open>schema_whitelist_check\<close>
  returns true for every schema string, whatever the operator whitelist is.
\<close>

theorem schema_whitelist_check_forced:
  "TORCH_FORCE_SCHEMA_REGISTRATION cfg \<Longrightarrow> schema_whitelist_check cfg schema = Inr True"
  by (simp add: schema_whitelist_check_def)

theorem schema_whitelist_check_forced_witness:
  "schema_whitelist_check
     \<lparr>TORCH_OPERATOR_WHITELIST = Some ''aten::sub'',
      TORCH_FORCE_SCHEMA_REGISTRATION = True, C10_MOBILE = False\<rparr>
     ''aten::add.Tensor(Tensor self, Tensor other) -> Tensor'' = Inr True
   \<and> schema_whitelist_check
     \<lparr>TORCH_OPERATOR_WHITELIST = Some '''',
      TORCH_FORCE_SCHEMA_REGISTRATION = True, C10_MOBILE = True\<rparr>
     ''add'' = Inr True"
  using schema_whitelist_check_forced
      [of "\<lparr>TORCH_OPERATOR_WHITELIST = Some ''aten::sub'',
            TORCH_FORCE_SCHEMA_REGISTRATION = True, C10_MOBILE = False\<rparr>"
          "''aten::add.Tensor(Tensor self, Tensor other) -> Tensor''"]
    schema_whitelist_check_forced
      [of "\<lparr>TORCH_OPERATOR_WHITELIST = Some '''',
            TORCH_FORCE_SCHEMA_REGISTRATION = True, C10_MOBILE = True\<rparr>" "''add''"]
  by simp

text \<open>
  C9. \<open>op_whitelist_contains\<close> terminates on every pair of strings. The loop is total
  from every position: when the search finds a delimiter at \<open>next\<close>, the position
  \<open>next + 1\<close> of the following iteration is greater than the current one and at most the
  length of the list, so the distance to the end of the list decreases; when it finds
  none, the loop is left. The function therefore returns a boolean, without an error.
\<close>

theorem op_whitelist_contains_terminates:
  "op_whitelist_contains_loop_dom (whitelist, item, cur)
   \<and> (\<exists>b. op_whitelist_contains whitelist item = Inr b)
   \<and> (find_char whitelist CHR '';'' cur = Some next \<longrightarrow>
        cur < next + 1 \<and> next + 1 \<le> length whitelist
        \<and> Suc (length whitelist) - (next + 1) < Suc (length whitelist) - cur)"
proof -
  have step: "cur' < next' + 1 \<and> next' + 1 \<le> length whitelist
      \<and> Suc (length whitelist) - (next' + 1) < Suc (length whitelist) - cur'"
    if "find_char whitelist CHR '';'' cur' = Some next'" for cur' next'
    using that by (auto simp: find_char_Some_iff)
  have "op_whitelist_contains_loop_dom (whitelist, item, cur)"
  proof (induction "Suc (length whitelist) - cur" arbitrary: cur rule: less_induct)
    case less
    show ?case
    proof (rule op_whitelist_contains_loop.domintros)
      fix x2
      assume "find_char whitelist CHR '';'' cur = Some x2"
      then have "Suc (length whitelist) - Suc x2 < Suc (length whitelist) - cur"
        using step [of cur x2] by simp
      then show "op_whitelist_contains_loop_dom (whitelist, item, Suc x2)"
        by (rule less)
    qed
  qed
  moreover have "\<exists>b. op_whitelist_contains whitelist item = Inr b"
    by (simp add: op_whitelist_contains_segments)
  ultimately show ?thesis
    using step [of cur "next"] by blast
qed

theorem op_whitelist_contains_terminates_witness:
  "op_whitelist_contains_loop_dom (''a;bc;d'', ''d'', 2)
   \<and> (\<exists>b. op_whitelist_contains ''a;bc;d'' ''d'' = Inr b)
   \<and> find_char ''a;bc;d'' CHR '';'' 2 = Some 4
   \<and> (2::nat) < 4 + 1 \<and> (4::nat) + 1 \<le> length ''a;bc;d''"
proof -
  have f: "find_char ''a;bc;d'' CHR '';'' 2 = Some 4"
    by code_simp
  show ?thesis
    using f op_whitelist_contains_terminates [of "''a;bc;d''" "''d''" 2 4]
    by simp
qed

text \<open>
  C10. With the whitelist configured as the empty string, \<open>op_whitelist_check\<close> returns
  false for every operator name (a name with \<^verbatim>\<open>::\<close>) whose text before the first \<^verbatim>\<open>.\<close>
  is not empty, whereas with no whitelist configured it returns true for it;
  \<open>op_whitelist_contains\<close> of the empty list is true for the empty token only.
\<close>

theorem op_whitelist_check_empty_whitelist:
  "(TORCH_OPERATOR_WHITELIST cfg = Some '''' \<and> sublist ''::'' op_name
      \<and> takeWhile (\<lambda>c. c \<noteq> CHR ''.'') op_name \<noteq> '''' \<longrightarrow>
      op_whitelist_check cfg op_name = Inr False)
   \<and> (TORCH_OPERATOR_WHITELIST cfg = None \<and> sublist ''::'' op_name \<longrightarrow>
      op_whitelist_check cfg op_name = Inr True)
   \<and> op_whitelist_contains '''' t = Inr (t = '''')"
  by (auto simp: op_whitelist_check_eq op_whitelist_contains_segments)

theorem op_whitelist_check_empty_whitelist_witness:
  "sublist ''::'' ''aten::add.Tensor''
   \<and> takeWhile (\<lambda>c. c \<noteq> CHR ''.'') ''aten::add.Tensor'' \<noteq> ''''
   \<and> op_whitelist_check
        \<lparr>TORCH_OPERATOR_WHITELIST = Some '''', TORCH_FORCE_SCHEMA_REGISTRATION = False,
         C10_MOBILE = False\<rparr> ''aten::add.Tensor'' = Inr False
   \<and> op_whitelist_check
        \<lparr>TORCH_OPERATOR_WHITELIST = None, TORCH_FORCE_SCHEMA_REGISTRATION = False,
         C10_MOBILE = False\<rparr> ''aten::add.Tensor'' = Inr True
   \<and> op_whitelist_contains '''' ''aten::add'' = Inr False
   \<and> op_whitelist_contains '''' '''' = Inr True"
proof -
  have s: "sublist ''::'' ''aten::add.Tensor''"
    by code_simp
  show ?thesis
    using s
      op_whitelist_check_empty_whitelist
        [of "\<lparr>TORCH_OPERATOR_WHITELIST = Some '''', TORCH_FORCE_SCHEMA_REGISTRATION = False,
              C10_MOBILE = False\<rparr>" "''aten::add.Tensor''" "''aten::add''"]
      op_whitelist_check_empty_whitelist
        [of "\<lparr>TORCH_OPERATOR_WHITELIST = None, TORCH_FORCE_SCHEMA_REGISTRATION = False,
              C10_MOBILE = False\<rparr>" "''aten::add.Tensor''" "''''"]
    by simp
qed

end
